theory Spec2Isabelle
  imports Main "HOL-Library.Word"
begin

unbundle bit_operations_syntax

section \<open>Configuration and data model of gor\_bignum.h\<close>

text \<open>
  The header is compiled with \<^verbatim>\<open>GORBN_SZWORD 2\<close>: a word \<^verbatim>\<open>gorbn_t\<close> is
  \<^verbatim>\<open>uint16_t\<close>, the temporaries \<^verbatim>\<open>gorbn_utmp_t\<close> and \<^verbatim>\<open>gorbn_stmp_t\<close> are
  \<^verbatim>\<open>uint32_t\<close> and \<^verbatim>\<open>int32_t\<close>, and the array holds \<^verbatim>\<open>256 / GORBN_SZWORD\<close> words.
\<close>

type_synonym gorbn_t = "16 word"
type_synonym gorbn_utmp_t = "32 word"
type_synonym gorbn_stmp_t = "32 word"

definition GORBN_SZWORD :: nat where
  "GORBN_SZWORD = 2"

definition GORBN_SZARR :: nat where
  "GORBN_SZARR = 256 div GORBN_SZWORD"

definition GORBN_MAX_VAL :: gorbn_utmp_t where
  "GORBN_MAX_VAL = 0xFFFF"

definition GORBN_SZWORD_BITS :: nat where
  "GORBN_SZWORD_BITS = 16"

definition GORBN_CMP_LARGER :: int where
  "GORBN_CMP_LARGER = 1"

definition GORBN_CMP_SMALLER :: int where
  "GORBN_CMP_SMALLER = - 1"

definition GORBN_CMP_EQUAL :: int where
  "GORBN_CMP_EQUAL = 0"

text \<open>
  \<^verbatim>\<open>struct gorbn_bignum { int sign; gorbn_t number[GORBN_SZARR]; }\<close>. The C array has
  exactly \<^verbatim>\<open>GORBN_SZARR\<close> elements; the list of a well-formed value has that length.
\<close>

record gorbn_bignum =
  sign :: int
  number :: "gorbn_t list"

definition wf_bignum :: "gorbn_bignum \<Rightarrow> bool" where
  "wf_bignum n = (length (number n) = GORBN_SZARR)"

text \<open>
  An index outside the array is undefined behaviour in C. Where an index is not bounded
  by the loop itself, the model checks it and returns \<open>Inl OutOfBounds\<close>.
\<close>

datatype gorbn_fault = OutOfBounds

text \<open>\<^verbatim>\<open>for (i = ...)\<close> over the listed indices, with a body that may fault.\<close>

fun for_each :: "nat list \<Rightarrow> (nat \<Rightarrow> 's \<Rightarrow> gorbn_fault + 's) \<Rightarrow> 's \<Rightarrow> gorbn_fault + 's" where
  "for_each [] body s = Inr s"
| "for_each (i # is) body s =
     (case body i s of Inl e \<Rightarrow> Inl e | Inr s' \<Rightarrow> for_each is body s')"

text \<open>The storage of a local \<^verbatim>\<open>gorbn_bignum\<close> before it is initialised.\<close>

definition gorbn_local :: gorbn_bignum where
  "gorbn_local = \<lparr>sign = 0, number = replicate GORBN_SZARR 0\<rparr>"

subsection \<open>Initialisation and conversion\<close>

definition gorbn_init :: "gorbn_bignum \<Rightarrow> gorbn_bignum" where
  "gorbn_init n =
     n\<lparr>number := fold (\<lambda>i xs. xs[i := 0]) [0..<GORBN_SZARR] (number n), sign := 1\<rparr>"

definition gorbn_copy :: "gorbn_bignum \<Rightarrow> gorbn_bignum \<Rightarrow> gorbn_bignum" where
  "gorbn_copy dst src =
     dst\<lparr>number := fold (\<lambda>i xs. xs[i := number src ! i]) [0..<GORBN_SZARR] (number dst),
         sign := sign src\<rparr>"

definition gorbn_from_uint :: "gorbn_bignum \<Rightarrow> gorbn_utmp_t \<Rightarrow> gorbn_bignum" where
  "gorbn_from_uint n i =
     (let n1 = gorbn_init n;
          n2 = n1\<lparr>number := (number n1)[0 := ucast i]\<rparr>;
          n3 = n2\<lparr>number := (number n2)[1 := ucast (drop_bit 16 i)]\<rparr>
      in n3\<lparr>sign := 1\<rparr>)"

text \<open>
  \<^verbatim>\<open>gorbn_from_int\<close>: the argument is an \<^verbatim>\<open>int32_t\<close>, read here with \<open>sint\<close>;
  \<^verbatim>\<open>GORBN_ABS\<close> negates a negative argument and \<^verbatim>\<open>>>\<close> on it is the signed shift.
\<close>

definition GORBN_ABS :: "gorbn_stmp_t \<Rightarrow> gorbn_stmp_t" where
  "GORBN_ABS val = (if 0 \<le> sint val then val else - val)"

definition gorbn_from_int :: "gorbn_bignum \<Rightarrow> gorbn_stmp_t \<Rightarrow> gorbn_bignum" where
  "gorbn_from_int n i =
     (let n1 = gorbn_init n;
          n2 = n1\<lparr>sign := 1\<rparr>;
          n3 = (if sint i < 0 then n2\<lparr>sign := - 1\<rparr> else n2);
          i' = GORBN_ABS i;
          n4 = n3\<lparr>number := (number n3)[0 := ucast i']\<rparr>
      in n4\<lparr>number := (number n4)[1 := ucast (signed_drop_bit 16 i')]\<rparr>)"

subsection \<open>Bitwise routines\<close>

definition gorbn_and :: "gorbn_bignum \<Rightarrow> gorbn_bignum \<Rightarrow> gorbn_bignum \<Rightarrow> gorbn_bignum" where
  "gorbn_and r a b =
     r\<lparr>number := fold (\<lambda>i xs. xs[i := number a ! i OR number b ! i])
                    [0..<GORBN_SZARR] (number r)\<rparr>"

definition gorbn_or :: "gorbn_bignum \<Rightarrow> gorbn_bignum \<Rightarrow> gorbn_bignum \<Rightarrow> gorbn_bignum" where
  "gorbn_or r a b =
     r\<lparr>number := fold (\<lambda>i xs. xs[i := number a ! i XOR number b ! i])
                    [0..<GORBN_SZARR] (number r)\<rparr>"

definition gorbn_xor :: "gorbn_bignum \<Rightarrow> gorbn_bignum \<Rightarrow> gorbn_bignum \<Rightarrow> gorbn_bignum" where
  "gorbn_xor r a b =
     r\<lparr>number := fold (\<lambda>i xs. xs[i := number a ! i AND number b ! i])
                    [0..<GORBN_SZARR] (number r)\<rparr>"

subsection \<open>Comparison\<close>

text \<open>
  The \<^verbatim>\<open>do { i -= 1; ... } while (i != 0)\<close> scan of \<^verbatim>\<open>gorbn_cmp\<close> and
  \<^verbatim>\<open>gorbn_cmp_mod\<close>; the argument is the index after the decrement.
\<close>

fun cmp_scan :: "gorbn_t list \<Rightarrow> gorbn_t list \<Rightarrow> nat \<Rightarrow> int" where
  "cmp_scan a b 0 =
     (if a ! 0 > b ! 0 then GORBN_CMP_LARGER
      else if a ! 0 < b ! 0 then GORBN_CMP_SMALLER
      else GORBN_CMP_EQUAL)"
| "cmp_scan a b (Suc i) =
     (if a ! Suc i > b ! Suc i then GORBN_CMP_LARGER
      else if a ! Suc i < b ! Suc i then GORBN_CMP_SMALLER
      else cmp_scan a b i)"

definition gorbn_cmp_mod :: "gorbn_bignum \<Rightarrow> gorbn_bignum \<Rightarrow> int" where
  "gorbn_cmp_mod a b = cmp_scan (number a) (number b) (GORBN_SZARR - 1)"


definition gorbn_is_zero :: "gorbn_bignum \<Rightarrow> int" where
  "gorbn_is_zero a = (if list_ex (\<lambda>i. number a ! i \<noteq> 0) [0..<GORBN_SZARR] then 0 else 1)"

text \<open>\<^verbatim>\<open>_gorbn_get_ndigits\<close>: the downward scan for the highest non-zero word.\<close>

fun ndigits_scan :: "gorbn_t list \<Rightarrow> nat \<Rightarrow> nat" where
  "ndigits_scan a 0 = 0"
| "ndigits_scan a (Suc i) = (if a ! i \<noteq> 0 then Suc i else ndigits_scan a i)"

definition gorbn_get_ndigits :: "gorbn_bignum \<Rightarrow> nat" where
  "gorbn_get_ndigits a = ndigits_scan (number a) GORBN_SZARR"

subsection \<open>Addition and subtraction\<close>

text \<open>One iteration of the same-sign loop; the state is the destination array and \<^verbatim>\<open>carry\<close>.\<close>

definition add_step ::
  "gorbn_bignum \<Rightarrow> gorbn_bignum \<Rightarrow> nat \<Rightarrow> gorbn_t list \<times> gorbn_utmp_t \<Rightarrow> gorbn_t list \<times> gorbn_utmp_t" where
  "add_step a b i s =
     (let tmp1 = ucast (number a ! i) + ucast (number b ! i) + snd s
      in ((fst s)[i := ucast (tmp1 AND GORBN_MAX_VAL)],
          if tmp1 > GORBN_MAX_VAL then 1 else 0))"

text \<open>One iteration of the subtracting loop; the state is the destination array and \<^verbatim>\<open>borrow\<close>.\<close>

definition sub_step ::
  "gorbn_bignum \<Rightarrow> gorbn_bignum \<Rightarrow> nat \<Rightarrow> gorbn_t list \<times> gorbn_utmp_t \<Rightarrow> gorbn_t list \<times> gorbn_utmp_t" where
  "sub_step big low i s =
     (let tmp1 = ucast (number big ! i) + (GORBN_MAX_VAL + 1);
          tmp2 = ucast (number low ! i) + snd s;
          res = tmp1 - tmp2
      in ((fst s)[i := ucast (res AND GORBN_MAX_VAL)],
          if res \<le> GORBN_MAX_VAL then 1 else 0))"

definition gorbn_internal_addition ::
  "gorbn_bignum \<Rightarrow> gorbn_bignum \<Rightarrow> int \<Rightarrow> gorbn_bignum \<Rightarrow> int \<Rightarrow> gorbn_bignum" where
  "gorbn_internal_addition dst a a_sign b b_sign =
     (if a_sign = b_sign then
        dst\<lparr>number := fst (fold (add_step a b) [0..<GORBN_SZARR] (number dst, 0)),
            sign := a_sign\<rparr>
      else
        let comp_res = gorbn_cmp_mod a b;
            big = (if comp_res \<ge> 0 then a else b);
            low = (if comp_res \<ge> 0 then b else a);
            dst1 = dst\<lparr>number := fst (fold (sub_step big low) [0..<GORBN_SZARR] (number dst, 0))\<rparr>
        in if a_sign > 0 \<and> comp_res \<ge> 0 then dst1\<lparr>sign := 1\<rparr> else dst1\<lparr>sign := - 1\<rparr>)"

definition gorbn_add :: "gorbn_bignum \<Rightarrow> gorbn_bignum \<Rightarrow> gorbn_bignum \<Rightarrow> gorbn_bignum" where
  "gorbn_add r a b = gorbn_internal_addition r a (sign a) b (sign b)"

definition gorbn_sub :: "gorbn_bignum \<Rightarrow> gorbn_bignum \<Rightarrow> gorbn_bignum \<Rightarrow> gorbn_bignum" where
  "gorbn_sub r a b = gorbn_internal_addition r a (sign a) b (sign b * - 1)"

subsection \<open>Multiplication\<close>

text \<open>
  The body of the inner loop of \<^verbatim>\<open>gorbn_mul\<close>, on \<^verbatim>\<open>buf.number\<close> and \<^verbatim>\<open>c\<close>. The
  index \<^verbatim>\<open>i + j\<close> is not bounded by the loops, so it is checked.
\<close>

definition mul_inner ::
  "gorbn_bignum \<Rightarrow> gorbn_bignum \<Rightarrow> nat \<Rightarrow> nat \<Rightarrow> gorbn_t list \<times> gorbn_utmp_t
     \<Rightarrow> gorbn_fault + gorbn_t list \<times> gorbn_utmp_t" where
  "mul_inner a b i j s =
     (if i + j < GORBN_SZARR then
        let uv = ucast (fst s ! (i + j)) + ucast (number a ! j) * ucast (number b ! i) + snd s
        in Inr ((fst s)[i + j := ucast (uv AND GORBN_MAX_VAL)],
                drop_bit GORBN_SZWORD_BITS uv AND GORBN_MAX_VAL)
      else Inl OutOfBounds)"

text \<open>
  The body of the outer loop: the inner loop from \<^verbatim>\<open>c = 0\<close>, then the store
  \<^verbatim>\<open>buf.number[i + a_ndigits + 1] = c\<close>.
\<close>

definition mul_outer ::
  "gorbn_bignum \<Rightarrow> gorbn_bignum \<Rightarrow> nat \<Rightarrow> nat \<Rightarrow> gorbn_t list \<Rightarrow> gorbn_fault + gorbn_t list" where
  "mul_outer a b a_ndigits i buf =
     (case for_each [0..<a_ndigits] (mul_inner a b i) (buf, 0) of
        Inl e \<Rightarrow> Inl e
      | Inr s \<Rightarrow>
          if i + a_ndigits + 1 < GORBN_SZARR
          then Inr ((fst s)[i + a_ndigits + 1 := ucast (snd s)])
          else Inl OutOfBounds)"

definition gorbn_mul :: "gorbn_bignum \<Rightarrow> gorbn_bignum \<Rightarrow> gorbn_bignum \<Rightarrow> gorbn_fault + gorbn_bignum" where
  "gorbn_mul r a b =
     (let a_ndigits = gorbn_get_ndigits a;
          b_ndigits = gorbn_get_ndigits b;
          buf = gorbn_init gorbn_local
      in case for_each [0..<b_ndigits] (mul_outer a b a_ndigits) (number buf) of
           Inl e \<Rightarrow> Inl e
         | Inr w \<Rightarrow> Inr (gorbn_copy r (buf\<lparr>number := w\<rparr>)))"

subsection \<open>Division\<close>

text \<open>
  The body of \<^verbatim>\<open>gorbn_div\<close> is compiled from the empty \<^verbatim>\<open>#else\<close> branch (the
  algorithm stands under \<^verbatim>\<open>#if 0\<close>): the function returns with \<^verbatim>\<open>*r\<close> as it was.
\<close>

definition gorbn_div :: "gorbn_bignum \<Rightarrow> gorbn_bignum \<Rightarrow> gorbn_bignum \<Rightarrow> gorbn_bignum" where
  "gorbn_div r a b = r"

subsection \<open>Import from and export to a byte buffer\<close>

text \<open>
  \<^verbatim>\<open>gorbn_from_data\<close> writes the array through a \<^verbatim>\<open>uint8_t*\<close>, so the order of the two
  bytes of a word in memory matters to the words it builds. The byte order of the host is a
  parameter of the model.
\<close>

type_synonym byte = "8 word"

datatype byte_order = LittleEndian | BigEndian

definition word_bytes :: "byte_order \<Rightarrow> gorbn_t \<Rightarrow> byte list" where
  "word_bytes bo w =
     (case bo of
        LittleEndian \<Rightarrow> [ucast w, ucast (drop_bit 8 w)]
      | BigEndian \<Rightarrow> [ucast (drop_bit 8 w), ucast w])"

definition bytes_word :: "byte_order \<Rightarrow> byte list \<Rightarrow> gorbn_t" where
  "bytes_word bo bs =
     (case bo of
        LittleEndian \<Rightarrow> ucast (bs ! 0) OR push_bit 8 (ucast (bs ! 1))
      | BigEndian \<Rightarrow> ucast (bs ! 1) OR push_bit 8 (ucast (bs ! 0)))"

text \<open>\<^verbatim>\<open>*to = v\<close> with \<^verbatim>\<open>to\<close> the \<open>k\<close>-th byte of the word array.\<close>

definition store_byte :: "byte_order \<Rightarrow> gorbn_t list \<Rightarrow> nat \<Rightarrow> byte \<Rightarrow> gorbn_t list" where
  "store_byte bo ws k v =
     ws[k div GORBN_SZWORD :=
          bytes_word bo ((word_bytes bo (ws ! (k div GORBN_SZWORD)))[k mod GORBN_SZWORD := v])]"

text \<open>
  The list \<open>data\<close> is the caller's buffer, its length the buffer's real size. A read past
  its end, or a write past the end of the word array, is the fault.
\<close>

definition from_data_step ::
  "byte_order \<Rightarrow> byte list \<Rightarrow> nat \<Rightarrow> gorbn_t list \<Rightarrow> gorbn_fault + gorbn_t list" where
  "from_data_step bo data i ws =
     (if i < length data \<and> i < GORBN_SZARR * GORBN_SZWORD
      then Inr (store_byte bo ws i (data ! i))
      else Inl OutOfBounds)"

definition gorbn_from_data ::
  "byte_order \<Rightarrow> gorbn_bignum \<Rightarrow> byte list \<Rightarrow> nat \<Rightarrow> gorbn_fault + gorbn_bignum" where
  "gorbn_from_data bo n data data_size =
     (let n1 = gorbn_init n
      in case for_each [0..<data_size] (from_data_step bo data) (number n1) of
           Inl e \<Rightarrow> Inl e
         | Inr ws \<Rightarrow> Inr (n1\<lparr>number := ws\<rparr>))"

text \<open>\<^verbatim>\<open>*to++ = *at++\<close> with \<^verbatim>\<open>to\<close> a \<^verbatim>\<open>gorbn_t*\<close> into the caller's buffer.\<close>

definition to_data_step ::
  "byte_order \<Rightarrow> gorbn_bignum \<Rightarrow> nat \<Rightarrow> byte list \<Rightarrow> gorbn_fault + byte list" where
  "to_data_step bo n i data =
     (if GORBN_SZWORD * i + 1 < length data
      then Inr (data[GORBN_SZWORD * i := word_bytes bo (number n ! i) ! 0,
                     GORBN_SZWORD * i + 1 := word_bytes bo (number n ! i) ! 1])
      else Inl OutOfBounds)"

text \<open>
  \<^verbatim>\<open>data_size\<close> is read by a \<^verbatim>\<open>GORBN_ASSERT\<close> only, which expands to nothing unless
  \<^verbatim>\<open>GOR_BIGNUM_ENABLE_ASSERTS\<close> is defined.
\<close>

definition gorbn_to_data ::
  "byte_order \<Rightarrow> byte list \<Rightarrow> nat \<Rightarrow> gorbn_bignum \<Rightarrow> gorbn_fault + byte list" where
  "gorbn_to_data bo data data_size n = for_each [0..<GORBN_SZARR] (to_data_step bo n) data"

text \<open>The bytes of the word array in memory order.\<close>

definition bn_bytes :: "byte_order \<Rightarrow> gorbn_t list \<Rightarrow> byte list" where
  "bn_bytes bo ws = concat (map (word_bytes bo) ws)"

subsection \<open>The value of a number\<close>

fun bn_mag :: "gorbn_t list \<Rightarrow> nat" where
  "bn_mag [] = 0"
| "bn_mag (w # ws) = unat w + 65536 * bn_mag ws"


section \<open>Loops that overwrite every word\<close>

lemma fold_update_length:
  "length (fold (\<lambda>i xs. xs[i := f i]) is xs) = length xs"
  by (induction "is" arbitrary: xs) simp_all

lemma fold_update_upt_nth:
  "k \<le> length xs \<Longrightarrow> j < length xs \<Longrightarrow>
     fold (\<lambda>i xs. xs[i := f i]) [0..<k] xs ! j = (if j < k then f j else xs ! j)"
proof (induction k)
  case 0
  then show ?case by simp
next
  case (Suc k)
  then show ?case
    by (simp add: fold_update_length nth_list_update less_Suc_eq)
qed

lemma fold_update_upt_all:
  "fold (\<lambda>i xs. xs[i := f i]) [0..<length xs] xs = map f [0..<length xs]"
  by (rule nth_equalityI) (simp_all add: fold_update_length fold_update_upt_nth)

lemma wf_bignum_local: "wf_bignum gorbn_local"
  by (simp add: wf_bignum_def gorbn_local_def)

lemma number_gorbn_init:
  "wf_bignum n \<Longrightarrow> number (gorbn_init n) = replicate GORBN_SZARR 0"
  unfolding wf_bignum_def gorbn_init_def
  by (rule nth_equalityI) (simp_all add: fold_update_length fold_update_upt_nth)

lemma sign_gorbn_init: "sign (gorbn_init n) = 1"
  by (simp add: gorbn_init_def)

lemma wf_gorbn_init: "wf_bignum n \<Longrightarrow> wf_bignum (gorbn_init n)"
  by (simp add: wf_bignum_def gorbn_init_def fold_update_length)

section \<open>Words as numbers\<close>

lemma unat16_lt: "unat (x :: 16 word) < 65536"
  using unsigned_less [of x, where ?'a = nat] by simp

lemma unat32_lt: "unat (x :: 32 word) < 4294967296"
  using unsigned_less [of x, where ?'a = nat] by simp

lemma unat_ucast_16_32: "unat (ucast (x :: 16 word) :: 32 word) = unat x"
proof -
  have "unat x < 2 ^ 32" using unat16_lt [of x] by simp
  then show ?thesis
    by (simp add: unsigned_ucast_eq take_bit_nat_eq_self)
qed

lemma MAX_VAL_mask: "GORBN_MAX_VAL = mask 16"
  by (simp add: GORBN_MAX_VAL_def mask_eq_exp_minus_1)

lemma unat_low_word: "unat (ucast ((w :: 32 word) AND GORBN_MAX_VAL) :: 16 word) = unat w mod 65536"
  by (simp add: MAX_VAL_mask unsigned_ucast_eq unsigned_take_bit_eq take_bit_eq_mod unat_mod_distrib flip: take_bit_eq_mask)

lemma gt_MAX_VAL: "((w :: 32 word) > GORBN_MAX_VAL) = (65536 \<le> unat w)"
  by (auto simp add: GORBN_MAX_VAL_def word_less_nat_alt)

lemma unat_high_word: "unat (drop_bit GORBN_SZWORD_BITS (w :: 32 word) AND GORBN_MAX_VAL) = unat w div 65536"
proof -
  have "unat w div 65536 < 65536" using unat32_lt [of w] by simp
  then show ?thesis
  by (simp add: MAX_VAL_mask GORBN_SZWORD_BITS_def unsigned_take_bit_eq unsigned_drop_bit_eq take_bit_eq_mod drop_bit_eq_div unat_mod_distrib unat_div_distrib flip: take_bit_eq_mask)
qed

lemma unat_add3:
  fixes x y :: "16 word" and c :: "32 word"
  assumes "unat c \<le> 1"
  shows "unat (ucast x + ucast y + c :: 32 word) = unat x + unat y + unat c"
proof -
  have "unat x + unat y + unat c < 2 ^ 32"
    using unat16_lt [of x] unat16_lt [of y] assms by simp
  then show ?thesis
    by (simp add: unat_word_ariths unat_ucast_16_32)
qed

section \<open>Magnitude, value and comparison\<close>

lemma GORBN_SZARR_pos: "0 < GORBN_SZARR"
  by (simp add: GORBN_SZARR_def GORBN_SZWORD_def)

lemma bn_mag_append: "bn_mag (xs @ ys) = bn_mag xs + 65536 ^ length xs * bn_mag ys"
  by (induction xs) (simp_all add: algebra_simps)

lemma bn_mag_bound: "bn_mag ws < 65536 ^ length ws"
proof (induction ws)
  case Nil
  then show ?case by simp
next
  case (Cons w ws)
  have "unat w < 65536" by (rule unat16_lt)
  with Cons show ?case by simp
qed

lemma bn_mag_replicate_zero [simp]: "bn_mag (replicate n 0) = 0"
  by (induction n) simp_all

lemma bn_mag_take_Suc:
  "k < length ws \<Longrightarrow> bn_mag (take (Suc k) ws) = bn_mag (take k ws) + 65536 ^ k * unat (ws ! k)"
  by (simp add: take_Suc_conv_app_nth bn_mag_append)

lemma digit_less:
  fixes P :: nat
  assumes "lo1 < P" and "d1 < d2"
  shows "lo1 + P * d1 < lo2 + P * d2"
proof -
  have "lo1 + P * d1 < P + P * d1" using assms(1) by simp
  also have "\<dots> = P * Suc d1" by simp
  also have "\<dots> \<le> P * d2" using assms(2) by (intro mult_le_mono2) simp
  also have "\<dots> \<le> lo2 + P * d2" by simp
  finally show ?thesis .
qed

lemma cmp_scan_mag:
  "k < length a \<Longrightarrow> k < length b \<Longrightarrow>
     cmp_scan a b k =
       (if bn_mag (take (Suc k) b) < bn_mag (take (Suc k) a) then GORBN_CMP_LARGER
        else if bn_mag (take (Suc k) a) < bn_mag (take (Suc k) b) then GORBN_CMP_SMALLER
        else GORBN_CMP_EQUAL)"
proof (induction k)
  case 0
  then show ?case
    by (simp add: bn_mag_take_Suc word_less_nat_alt)
next
  case (Suc k)
  let ?la = "bn_mag (take (Suc k) a)" and ?lb = "bn_mag (take (Suc k) b)"
  have la: "?la < 65536 ^ Suc k" using bn_mag_bound [of "take (Suc k) a"] Suc.prems by simp
  have lb: "?lb < 65536 ^ Suc k" using bn_mag_bound [of "take (Suc k) b"] Suc.prems by simp
  have ma: "bn_mag (take (Suc (Suc k)) a) = ?la + 65536 ^ Suc k * unat (a ! Suc k)"
    using Suc.prems by (simp only: bn_mag_take_Suc)
  have mb: "bn_mag (take (Suc (Suc k)) b) = ?lb + 65536 ^ Suc k * unat (b ! Suc k)"
    using Suc.prems by (simp only: bn_mag_take_Suc)
  consider (gt) "unat (b ! Suc k) < unat (a ! Suc k)"
    | (lt) "unat (a ! Suc k) < unat (b ! Suc k)"
    | (eq) "unat (a ! Suc k) = unat (b ! Suc k)"
    by linarith
  then show ?case
  proof cases
    case gt
    then have "bn_mag (take (Suc (Suc k)) b) < bn_mag (take (Suc (Suc k)) a)"
      unfolding ma mb using lb by (rule_tac digit_less)
    with gt show ?thesis by (simp add: word_less_nat_alt)
  next
    case lt
    then have "bn_mag (take (Suc (Suc k)) a) < bn_mag (take (Suc (Suc k)) b)"
      unfolding ma mb using la by (rule_tac digit_less)
    with lt show ?thesis by (simp add: word_less_nat_alt)
  next
    case eq
    then have "a ! Suc k = b ! Suc k" by (simp add: word_unat_eq_iff)
    moreover have "cmp_scan a b k =
       (if ?lb < ?la then GORBN_CMP_LARGER
        else if ?la < ?lb then GORBN_CMP_SMALLER else GORBN_CMP_EQUAL)"
      using Suc by simp
    ultimately show ?thesis
      unfolding ma mb by simp
  qed
qed

lemma gorbn_cmp_mod_mag:
  assumes "wf_bignum a" "wf_bignum b"
  shows "gorbn_cmp_mod a b =
       (if bn_mag (number b) < bn_mag (number a) then GORBN_CMP_LARGER
        else if bn_mag (number a) < bn_mag (number b) then GORBN_CMP_SMALLER
        else GORBN_CMP_EQUAL)"
proof -
  have "GORBN_SZARR - 1 < length (number a)" "GORBN_SZARR - 1 < length (number b)"
    using assms GORBN_SZARR_pos by (simp_all add: wf_bignum_def)
  from cmp_scan_mag [OF this] show ?thesis
    using assms GORBN_SZARR_pos by (simp add: gorbn_cmp_mod_def wf_bignum_def)
qed





section \<open>The bitwise routines\<close>

text \<open>
  What the three loops store, for every destination of the right size and every index:
  \<^verbatim>\<open>gorbn_and\<close> stores the OR of the operand words, \<^verbatim>\<open>gorbn_or\<close> their XOR and
  \<^verbatim>\<open>gorbn_xor\<close> their AND.
\<close>

lemma gorbn_and_stores_or:
  "wf_bignum r \<Longrightarrow> i < GORBN_SZARR \<Longrightarrow>
     number (gorbn_and r a b) ! i = number a ! i OR number b ! i"
  by (simp add: wf_bignum_def gorbn_and_def fold_update_upt_nth)

lemma gorbn_or_stores_xor:
  "wf_bignum r \<Longrightarrow> i < GORBN_SZARR \<Longrightarrow>
     number (gorbn_or r a b) ! i = number a ! i XOR number b ! i"
  by (simp add: wf_bignum_def gorbn_or_def fold_update_upt_nth)

lemma gorbn_xor_stores_and:
  "wf_bignum r \<Longrightarrow> i < GORBN_SZARR \<Longrightarrow>
     number (gorbn_xor r a b) ! i = number a ! i AND number b ! i"
  by (simp add: wf_bignum_def gorbn_xor_def fold_update_upt_nth)

text \<open>
  C1. The claim: word \<open>i\<close> of the destination of \<^verbatim>\<open>gorbn_and\<close> is the AND of the operand
  words, of \<^verbatim>\<open>gorbn_or\<close> their OR, of \<^verbatim>\<open>gorbn_xor\<close> their XOR. The header documents the
  three functions so (\<^verbatim>\<open>r = a & b\<close>, \<^verbatim>\<open>r = a | b\<close>, \<^verbatim>\<open>r = a ^ b\<close>), and the code does not
  do it: on the operands 12 and 10 (binary 1100 and 1010), where AND is 8, OR is 14 and XOR
  is 6, word 0 of \<^verbatim>\<open>gorbn_and\<close> is 14, of \<^verbatim>\<open>gorbn_or\<close> is 6 and of \<^verbatim>\<open>gorbn_xor\<close> is 8.
\<close>

theorem bitwise_routines_mislabelled:
  "number (gorbn_and gorbn_local (gorbn_from_uint gorbn_local 12)
             (gorbn_from_uint gorbn_local 10)) ! 0 = 14 \<and>
   number (gorbn_or gorbn_local (gorbn_from_uint gorbn_local 12)
             (gorbn_from_uint gorbn_local 10)) ! 0 = 6 \<and>
   number (gorbn_xor gorbn_local (gorbn_from_uint gorbn_local 12)
             (gorbn_from_uint gorbn_local 10)) ! 0 = 8 \<and>
   (12 :: gorbn_t) AND 10 = 8 \<and> (12 :: gorbn_t) OR 10 = 14 \<and> (12 :: gorbn_t) XOR 10 = 6"
  by code_simp

section \<open>Signed addition\<close>

subsection \<open>Operands of one sign\<close>

lemma add_step_length: "length (fst (add_step a b i s)) = length (fst s)"
  by (simp add: add_step_def Let_def)

lemma add_loop_invariant:
  assumes "k \<le> length dst" "k \<le> length (number a)" "k \<le> length (number b)"
  shows "length (fst (fold (add_step a b) [0..<k] (dst, 0))) = length dst \<and>
         unat (snd (fold (add_step a b) [0..<k] (dst, 0))) \<le> 1 \<and>
         bn_mag (take k (fst (fold (add_step a b) [0..<k] (dst, 0))))
           + 65536 ^ k * unat (snd (fold (add_step a b) [0..<k] (dst, 0)))
         = bn_mag (take k (number a)) + bn_mag (take k (number b))"
  using assms
proof (induction k)
  case 0
  then show ?case by simp
next
  case (Suc k)
  define s where "s = fold (add_step a b) [0..<k] (dst, 0)"
  define t where "t = unat (number a ! k) + unat (number b ! k) + unat (snd s)"
  from Suc have len: "length (fst s) = length dst" and c1: "unat (snd s) \<le> 1"
    and inv: "bn_mag (take k (fst s)) + 65536 ^ k * unat (snd s)
                = bn_mag (take k (number a)) + bn_mag (take k (number b))"
    by (simp_all add: s_def)
  have step: "fold (add_step a b) [0..<Suc k] (dst, 0) = add_step a b k s"
    by (simp add: s_def)
  have tmp: "unat (ucast (number a ! k) + ucast (number b ! k) + snd s :: 32 word) = t"
    unfolding t_def using c1 by (rule unat_add3)
  have tlt: "t < 2 * 65536"
    using unat16_lt [of "number a ! k"] unat16_lt [of "number b ! k"] c1 by (simp add: t_def)
  have fst_eq: "fst (add_step a b k s) = (fst s)[k := ucast ((ucast (number a ! k) + ucast (number b ! k) + snd s) AND GORBN_MAX_VAL)]"
    by (simp add: add_step_def Let_def)
  have carry: "unat (snd (add_step a b k s)) = t div 65536"
  proof (cases "65536 \<le> t")
    case True
    then have "t div 65536 = 1" using tlt by simp
    with True show ?thesis by (simp add: add_step_def Let_def gt_MAX_VAL tmp)
  next
    case False
    then show ?thesis by (simp add: add_step_def Let_def gt_MAX_VAL tmp)
  qed
  have klen: "k < length (fst s)" using Suc.prems len by simp
  have low: "bn_mag (take (Suc k) (fst (add_step a b k s)))
               = bn_mag (take k (fst s)) + 65536 ^ k * (t mod 65536)"
    using klen by (simp add: fst_eq bn_mag_take_Suc unat_low_word tmp)
  have split: "t mod 65536 + 65536 * (t div 65536) = t" by simp
  have "bn_mag (take (Suc k) (fst (add_step a b k s)))
          + 65536 ^ Suc k * unat (snd (add_step a b k s))
        = bn_mag (take k (fst s))
            + (65536 ^ k * (t mod 65536) + 65536 ^ k * (65536 * (t div 65536)))"
    by (simp add: low carry)
  also have "\<dots> = bn_mag (take k (fst s)) + 65536 ^ k * (t mod 65536 + 65536 * (t div 65536))"
    by (simp only: distrib_left)
  also have "\<dots> = bn_mag (take k (fst s)) + 65536 ^ k * t"
    by (simp only: split)
  also have "\<dots> = bn_mag (take (Suc k) (number a)) + bn_mag (take (Suc k) (number b))"
    using inv Suc.prems by (simp add: bn_mag_take_Suc t_def algebra_simps)
  finally have main: "bn_mag (take (Suc k) (fst (add_step a b k s)))
          + 65536 ^ Suc k * unat (snd (add_step a b k s))
        = bn_mag (take (Suc k) (number a)) + bn_mag (take (Suc k) (number b))" .
  have "unat (snd (add_step a b k s)) \<le> 1"
    using carry tlt by simp
  with main len show ?case
    unfolding step by (simp add: add_step_length)
qed

lemma bn_mag_replicate_max: "bn_mag (replicate n 0xFFFF) + 1 = 65536 ^ n"
  by (induction n) simp_all

text \<open>
  C6, as it holds. The claim: a carry out of the highest word is reported as a
  CapacityOverflow fault. \<^verbatim>\<open>gorbn_add\<close> returns \<^verbatim>\<open>void\<close> and the loop drops the last
  carry: for operands of one sign the result has that sign, and its magnitude is the sum of
  the magnitudes modulo \<open>65536 ^ GORBN_SZARR\<close>, the low words of the sum, whether or not
  the carry out of the highest word is zero.
\<close>

theorem gorbn_add_same_sign_wraps:
  assumes "wf_bignum r" and "wf_bignum a" and "wf_bignum b" and "sign a = sign b"
  shows "sign (gorbn_add r a b) = sign a \<and> wf_bignum (gorbn_add r a b) \<and>
         bn_mag (number (gorbn_add r a b))
           = (bn_mag (number a) + bn_mag (number b)) mod 65536 ^ GORBN_SZARR"
proof -
  let ?s = "fold (add_step a b) [0..<GORBN_SZARR] (number r, 0)"
  have num: "number (gorbn_add r a b) = fst ?s" and sg: "sign (gorbn_add r a b) = sign a"
    using assms(4) by (simp_all add: gorbn_add_def gorbn_internal_addition_def)
  have inv0: "length (fst ?s) = length (number r) \<and> unat (snd ?s) \<le> 1 \<and>
      bn_mag (take GORBN_SZARR (fst ?s)) + 65536 ^ GORBN_SZARR * unat (snd ?s)
        = bn_mag (take GORBN_SZARR (number a)) + bn_mag (take GORBN_SZARR (number b))"
    using assms(1-3) by (intro add_loop_invariant) (simp_all add: wf_bignum_def)
  then have len: "length (fst ?s) = GORBN_SZARR"
    using assms(1) by (simp add: wf_bignum_def)
  from inv0 have inv: "bn_mag (fst ?s) + 65536 ^ GORBN_SZARR * unat (snd ?s)
                = bn_mag (number a) + bn_mag (number b)"
    using len assms(2,3) by (simp add: wf_bignum_def)
  have "bn_mag (fst ?s) < 65536 ^ GORBN_SZARR"
    using bn_mag_bound [of "fst ?s"] len by simp
  then have "bn_mag (fst ?s) = (bn_mag (number a) + bn_mag (number b)) mod 65536 ^ GORBN_SZARR"
    using inv by (metis mod_less mod_mult_self2)
  with sg num len show ?thesis by (simp add: wf_bignum_def)
qed

text \<open>
  The hypotheses hold and the theorem is used where the sum does not fit: the largest
  magnitude plus one.
\<close>

theorem gorbn_add_same_sign_wraps_witness:
  "sign (gorbn_add gorbn_local \<lparr>sign = 1, number = replicate 128 0xFFFF\<rparr>
           (gorbn_from_uint gorbn_local 1)) = 1 \<and>
   bn_mag (number (gorbn_add gorbn_local \<lparr>sign = 1, number = replicate 128 0xFFFF\<rparr>
                     (gorbn_from_uint gorbn_local 1))) = 0"
proof -
  let ?a = "\<lparr>sign = 1, number = replicate 128 0xFFFF\<rparr> :: gorbn_bignum"
  let ?b = "gorbn_from_uint gorbn_local 1"
  have nb: "number ?b = 1 # replicate 127 0" by code_simp
  have sb: "sign ?b = 1" by code_simp
  have sz: "GORBN_SZARR = 128" by (simp add: GORBN_SZARR_def GORBN_SZWORD_def)
  have wa: "wf_bignum ?a" and wb: "wf_bignum ?b"
    by (simp_all add: wf_bignum_def nb sz)
  have ss: "sign ?a = sign ?b" by (simp add: sb)
  have "bn_mag (number ?a) + bn_mag (number ?b) = 65536 ^ 128"
    using bn_mag_replicate_max [of 128] by (simp add: nb)
  with gorbn_add_same_sign_wraps [OF wf_bignum_local wa wb ss] show ?thesis
    by (simp add: sz)
qed

text \<open>
  C6, as stated, fails there: the carry after the last iteration is 1, and \<^verbatim>\<open>gorbn_add\<close>
  returns the number zero, equal in sign and in every word to \<^verbatim>\<open>gorbn_from_uint(0)\<close>.
\<close>

theorem gorbn_add_overflow_truncates:
  "snd (fold (add_step \<lparr>sign = 1, number = replicate 128 0xFFFF\<rparr>
                (gorbn_from_uint gorbn_local 1))
          [0..<GORBN_SZARR] (number gorbn_local, 0)) = 1 \<and>
   gorbn_add gorbn_local \<lparr>sign = 1, number = replicate 128 0xFFFF\<rparr>
     (gorbn_from_uint gorbn_local 1) = gorbn_from_uint gorbn_local 0"
  by code_simp

subsection \<open>Operands of differing signs\<close>

lemma sub_step_length: "length (fst (sub_step big low i s)) = length (fst s)"
  by (simp add: sub_step_def Let_def)

lemma le_MAX_VAL: "((w :: 32 word) \<le> GORBN_MAX_VAL) = (unat w < 65536)"
  by (auto simp add: GORBN_MAX_VAL_def word_le_nat_alt)

lemma unat_sub3:
  fixes x y :: "16 word" and c :: "32 word"
  assumes "unat c \<le> 1"
  shows "unat (ucast x + (GORBN_MAX_VAL + 1) - (ucast y + c) :: 32 word)
           = 65536 + unat x - (unat y + unat c)"
proof -
  have x: "unat (ucast x + (GORBN_MAX_VAL + 1) :: 32 word) = unat x + 65536"
    using unat16_lt [of x]
    by (simp add: unat_word_ariths unat_ucast_16_32 GORBN_MAX_VAL_def)
  have y: "unat (ucast y + c :: 32 word) = unat y + unat c"
    using unat16_lt [of y] assms
    by (simp add: unat_word_ariths unat_ucast_16_32)
  have "unat (ucast y + c :: 32 word) \<le> unat (ucast x + (GORBN_MAX_VAL + 1) :: 32 word)"
    using unat16_lt [of y] assms by (simp add: x y)
  then have "unat (ucast x + (GORBN_MAX_VAL + 1) - (ucast y + c) :: 32 word)
               = unat (ucast x + (GORBN_MAX_VAL + 1) :: 32 word) - unat (ucast y + c :: 32 word)"
    by (simp add: unat_sub word_le_nat_alt)
  then show ?thesis by (simp add: x y)
qed

lemma sub_loop_invariant:
  assumes "k \<le> length dst" "k \<le> length (number big)" "k \<le> length (number low)"
  shows "length (fst (fold (sub_step big low) [0..<k] (dst, 0))) = length dst \<and>
         unat (snd (fold (sub_step big low) [0..<k] (dst, 0))) \<le> 1 \<and>
         bn_mag (take k (fst (fold (sub_step big low) [0..<k] (dst, 0))))
           + bn_mag (take k (number low))
         = bn_mag (take k (number big))
           + 65536 ^ k * unat (snd (fold (sub_step big low) [0..<k] (dst, 0)))"
  using assms
proof (induction k)
  case 0
  then show ?case by simp
next
  case (Suc k)
  define s where "s = fold (sub_step big low) [0..<k] (dst, 0)"
  define ub where "ub = unat (number big ! k)"
  define ul where "ul = unat (number low ! k)"
  define c where "c = unat (snd s)"
  define t where "t = 65536 + ub - (ul + c)"
  from Suc have len: "length (fst s) = length dst" and c1: "c \<le> 1"
    and inv: "bn_mag (take k (fst s)) + bn_mag (take k (number low))
                = bn_mag (take k (number big)) + 65536 ^ k * c"
    by (simp_all add: s_def c_def)
  have step: "fold (sub_step big low) [0..<Suc k] (dst, 0) = sub_step big low k s"
    by (simp add: s_def)
  have res: "unat (ucast (number big ! k) + (GORBN_MAX_VAL + 1)
                    - (ucast (number low ! k) + snd s) :: 32 word) = t"
    unfolding t_def ub_def ul_def c_def using c1 [unfolded c_def] by (rule unat_sub3)
  have ubl: "ub < 65536" and ull: "ul < 65536"
    using unat16_lt by (simp_all add: ub_def ul_def)
  have fst_eq: "fst (sub_step big low k s)
      = (fst s)[k := ucast ((ucast (number big ! k) + (GORBN_MAX_VAL + 1)
                              - (ucast (number low ! k) + snd s)) AND GORBN_MAX_VAL)]"
    by (simp add: sub_step_def Let_def)
  define c' where "c' = unat (snd (sub_step big low k s))"
  have borrow: "c' = (if t < 65536 then 1 else 0)"
    by (simp add: c'_def sub_step_def Let_def le_MAX_VAL res)
  have klen: "k < length (fst s)" using Suc.prems len by simp
  have low: "bn_mag (take (Suc k) (fst (sub_step big low k s)))
               = bn_mag (take k (fst s)) + 65536 ^ k * (t mod 65536)"
    using klen by (simp add: fst_eq bn_mag_take_Suc unat_low_word res)
  have digit: "t mod 65536 + ul + c = ub + 65536 * c'"
  proof (cases "t < 65536")
    case True
    then show ?thesis using ubl ull c1 by (simp add: borrow t_def)
  next
    case False
    then have "t mod 65536 = t - 65536"
      using ubl ull c1 by (simp add: t_def mod_if)
    with False show ?thesis using ubl ull c1 by (simp add: borrow t_def)
  qed
  have "bn_mag (take (Suc k) (fst (sub_step big low k s))) + bn_mag (take (Suc k) (number low))
          = (bn_mag (take k (fst s)) + bn_mag (take k (number low)))
              + 65536 ^ k * (t mod 65536 + ul)"
    using Suc.prems by (simp add: low bn_mag_take_Suc ul_def algebra_simps)
  also have "\<dots> = bn_mag (take k (number big)) + 65536 ^ k * (t mod 65536 + ul + c)"
    by (simp add: inv algebra_simps)
  also have "\<dots> = bn_mag (take k (number big)) + 65536 ^ k * (ub + 65536 * c')"
    by (simp only: digit)
  also have "\<dots> = bn_mag (take (Suc k) (number big)) + 65536 ^ Suc k * c'"
    using Suc.prems by (simp add: bn_mag_take_Suc ub_def algebra_simps)
  finally have main: "bn_mag (take (Suc k) (fst (sub_step big low k s)))
        + bn_mag (take (Suc k) (number low))
      = bn_mag (take (Suc k) (number big)) + 65536 ^ Suc k * c'" .
  have "c' \<le> 1" by (simp add: borrow)
  with main len show ?case
    unfolding step c'_def by (simp add: sub_step_length)
qed

lemma sub_loop_difference:
  assumes "length dst = GORBN_SZARR" "wf_bignum big" "wf_bignum low"
    and "bn_mag (number low) \<le> bn_mag (number big)"
  shows "length (fst (fold (sub_step big low) [0..<GORBN_SZARR] (dst, 0))) = GORBN_SZARR \<and>
         bn_mag (fst (fold (sub_step big low) [0..<GORBN_SZARR] (dst, 0)))
           = bn_mag (number big) - bn_mag (number low)"
proof -
  let ?s = "fold (sub_step big low) [0..<GORBN_SZARR] (dst, 0)"
  have inv0: "length (fst ?s) = length dst \<and> unat (snd ?s) \<le> 1 \<and>
      bn_mag (take GORBN_SZARR (fst ?s)) + bn_mag (take GORBN_SZARR (number low))
        = bn_mag (take GORBN_SZARR (number big)) + 65536 ^ GORBN_SZARR * unat (snd ?s)"
    using assms(1-3) by (intro sub_loop_invariant) (simp_all add: wf_bignum_def)
  then have len: "length (fst ?s) = GORBN_SZARR"
    using assms(1) by simp
  from inv0 have inv: "bn_mag (fst ?s) + bn_mag (number low)
                = bn_mag (number big) + 65536 ^ GORBN_SZARR * unat (snd ?s)"
    using len assms(2,3) by (simp add: wf_bignum_def)
  have b: "bn_mag (fst ?s) < 65536 ^ GORBN_SZARR"
    using bn_mag_bound [of "fst ?s"] len by simp
  have "unat (snd ?s) = 0"
  proof (rule ccontr)
    assume "unat (snd ?s) \<noteq> 0"
    then have "65536 ^ GORBN_SZARR \<le> 65536 ^ GORBN_SZARR * unat (snd ?s)" by simp
    with inv assms(4) b show False by linarith
  qed
  with inv len show ?thesis by simp
qed

text \<open>What the signed addition returns for operands of differing signs.\<close>

lemma gorbn_internal_addition_differing_signs:
  assumes "wf_bignum dst" "wf_bignum a" "wf_bignum b" and "a_sign \<noteq> b_sign"
  shows "bn_mag (number (gorbn_internal_addition dst a a_sign b b_sign))
           = (if bn_mag (number b) \<le> bn_mag (number a)
              then bn_mag (number a) - bn_mag (number b)
              else bn_mag (number b) - bn_mag (number a))"
    and "sign (gorbn_internal_addition dst a a_sign b b_sign)
           = (if 0 < a_sign \<and> bn_mag (number b) \<le> bn_mag (number a) then 1 else - 1)"
proof -
  have cmp: "0 \<le> gorbn_cmp_mod a b \<longleftrightarrow> bn_mag (number b) \<le> bn_mag (number a)"
    using gorbn_cmp_mod_mag [OF assms(2,3)]
    by (auto simp add: GORBN_CMP_LARGER_def GORBN_CMP_SMALLER_def GORBN_CMP_EQUAL_def)
  have l: "length (number dst) = GORBN_SZARR" using assms(1) by (simp add: wf_bignum_def)
  show "bn_mag (number (gorbn_internal_addition dst a a_sign b b_sign))
           = (if bn_mag (number b) \<le> bn_mag (number a)
              then bn_mag (number a) - bn_mag (number b)
              else bn_mag (number b) - bn_mag (number a))"
  proof (cases "bn_mag (number b) \<le> bn_mag (number a)")
    case True
    with sub_loop_difference [OF l assms(2,3) True] assms(4) cmp show ?thesis
      by (simp add: gorbn_internal_addition_def Let_def)
  next
    case False
    then have "bn_mag (number a) \<le> bn_mag (number b)" by simp
    from sub_loop_difference [OF l assms(3,2) this] False assms(4) cmp show ?thesis
      by (simp add: gorbn_internal_addition_def Let_def)
  qed
  show "sign (gorbn_internal_addition dst a a_sign b b_sign)
           = (if 0 < a_sign \<and> bn_mag (number b) \<le> bn_mag (number a) then 1 else - 1)"
    using assms(4) cmp by (simp add: gorbn_internal_addition_def Let_def)
qed

text \<open>
  C3. The claim: with differing signs the result carries the sign of the operand of larger
  magnitude, and a tie gives zero with sign \<open>+1\<close>. The sign test of
  \<^verbatim>\<open>_gorbn_internal_addition\<close> is \<^verbatim>\<open>a_sign > 0 && comp_res >= 0\<close>, so every sum with a
  negative first operand is negative: \<open>-3 + 5\<close> is computed as \<open>-2\<close> (the magnitude 2 is
  right, the sign is that of the smaller operand), and \<open>-5 + 5\<close> is a zero of sign \<open>-1\<close>.
  The magnitude is the difference for all operands, and the sign is as the claim says
  unless the first operand is negative and not the larger one
  (\<open>gorbn_internal_addition_differing_signs\<close>).
\<close>

theorem add_sign_of_negative_first_operand:
  "gorbn_add gorbn_local (gorbn_from_int gorbn_local (- 3)) (gorbn_from_int gorbn_local 5)
     = gorbn_from_int gorbn_local (- 2) \<and>
   gorbn_add gorbn_local (gorbn_from_int gorbn_local (- 5)) (gorbn_from_int gorbn_local 5)
     = (gorbn_from_int gorbn_local 0)\<lparr>sign := - 1\<rparr>"
  by code_simp

text \<open>
  C4. The claim: \<^verbatim>\<open>gorbn_sub\<close> after \<^verbatim>\<open>gorbn_add\<close> of the same \<open>b\<close> gives \<open>a\<close> back. With
  \<open>a = 3\<close> and \<open>b = -5\<close> the sum is \<open>-2\<close>, and subtracting \<open>b\<close> from it runs into the same
  sign test as in C3: the result is \<open>-3\<close>, not \<open>3\<close>.
\<close>

theorem add_then_sub_loses_sign:
  "gorbn_sub gorbn_local
     (gorbn_add gorbn_local (gorbn_from_int gorbn_local 3) (gorbn_from_int gorbn_local (- 5)))
     (gorbn_from_int gorbn_local (- 5))
     = gorbn_from_int gorbn_local (- 3) \<and>
   gorbn_from_int gorbn_local (- 3) \<noteq> gorbn_from_int gorbn_local 3"
  by code_simp

section \<open>Multiplication\<close>

lemma gorbn_fault_only: "(e :: gorbn_fault) = OutOfBounds"
  by (cases e) simp

lemma for_each_fails:
  "i \<in> set is \<Longrightarrow> (\<And>s. body i s = Inl OutOfBounds) \<Longrightarrow> for_each is body s = Inl OutOfBounds"
proof (induction "is" arbitrary: s)
  case Nil
  then show ?case by simp
next
  case (Cons j js)
  show ?case
  proof (cases "body j s")
    case (Inl e)
    then show ?thesis by (simp add: gorbn_fault_only [of e])
  next
    case (Inr s')
    show ?thesis
    proof (cases "i = j")
      case True
      with Cons.prems(2) [of s] Inr show ?thesis by simp
    next
      case False
      with Cons.prems have "i \<in> set js" by simp
      from Cons.IH [OF this Cons.prems(2)] Inr show ?thesis by simp
    qed
  qed
qed

lemma for_each_succeeds:
  "(\<And>i s. i \<in> set is \<Longrightarrow> \<exists>s'. body i s = Inr s') \<Longrightarrow> \<exists>s'. for_each is body s = Inr s'"
proof (induction "is" arbitrary: s)
  case Nil
  then show ?case by simp
next
  case (Cons j js)
  from Cons.prems [of j s] obtain s' where "body j s = Inr s'" by auto
  moreover have "\<exists>s''. for_each js body s' = Inr s''"
    using Cons.prems by (intro Cons.IH) simp
  ultimately show ?case by simp
qed

lemma mul_outer_succeeds:
  assumes "i + a_ndigits + 1 < GORBN_SZARR"
  shows "\<exists>buf'. mul_outer a b a_ndigits i buf = Inr buf'"
proof -
  have "\<exists>s'. for_each [0..<a_ndigits] (mul_inner a b i) (buf, 0) = Inr s'"
  proof (rule for_each_succeeds)
    fix j and s :: "gorbn_t list \<times> gorbn_utmp_t"
    assume "j \<in> set [0..<a_ndigits]"
    with assms have "i + j < GORBN_SZARR" by simp
    then show "\<exists>s'. mul_inner a b i j s = Inr s'"
      by (simp add: mul_inner_def Let_def)
  qed
  with assms show ?thesis by (auto simp add: mul_outer_def)
qed

lemma mul_outer_fails:
  assumes "GORBN_SZARR \<le> i + a_ndigits + 1"
  shows "mul_outer a b a_ndigits i buf = Inl OutOfBounds"
  using assms by (simp add: mul_outer_def gorbn_fault_only split: sum.splits)

text \<open>
  \<^verbatim>\<open>gorbn_mul\<close> leaves the array exactly when the second operand is not zero and the digit
  counts add up to \<open>GORBN_SZARR\<close> or more.
\<close>

lemma gorbn_mul_out_of_bounds_iff:
  "gorbn_mul r a b = Inl OutOfBounds \<longleftrightarrow>
     0 < gorbn_get_ndigits b \<and> GORBN_SZARR \<le> gorbn_get_ndigits a + gorbn_get_ndigits b"
proof (cases "0 < gorbn_get_ndigits b \<and> GORBN_SZARR \<le> gorbn_get_ndigits a + gorbn_get_ndigits b")
  case True
  let ?i = "gorbn_get_ndigits b - 1"
  have "?i \<in> set [0..<gorbn_get_ndigits b]" using True by simp
  moreover have "\<And>buf. mul_outer a b (gorbn_get_ndigits a) ?i buf = Inl OutOfBounds"
    using True by (intro mul_outer_fails) simp
  ultimately have "for_each [0..<gorbn_get_ndigits b] (mul_outer a b (gorbn_get_ndigits a))
                     (number (gorbn_init gorbn_local)) = Inl OutOfBounds"
    by (rule for_each_fails)
  with True show ?thesis by (simp add: gorbn_mul_def Let_def)
next
  case False
  have "\<exists>w. for_each [0..<gorbn_get_ndigits b] (mul_outer a b (gorbn_get_ndigits a))
                     (number (gorbn_init gorbn_local)) = Inr w"
  proof (rule for_each_succeeds)
    fix i and buf :: "gorbn_t list"
    assume "i \<in> set [0..<gorbn_get_ndigits b]"
    with False have "i + gorbn_get_ndigits a + 1 < GORBN_SZARR" by simp
    then show "\<exists>buf'. mul_outer a b (gorbn_get_ndigits a) i buf = Inr buf'"
      by (rule mul_outer_succeeds)
  qed
  with False show ?thesis by (auto simp add: gorbn_mul_def Let_def)
qed

text \<open>The sign of every product is \<open>+1\<close>.\<close>

lemma gorbn_mul_sign: "gorbn_mul r a b = Inr x \<Longrightarrow> sign x = 1"
  by (auto simp add: gorbn_mul_def Let_def gorbn_copy_def sign_gorbn_init split: sum.splits)

text \<open>
  C5. The claim: the sign of the product is negative when the operand signs differ.
  \<^verbatim>\<open>gorbn_mul\<close> never reads a sign: the result is copied from a buffer that
  \<^verbatim>\<open>gorbn_init\<close> made positive (\<open>gorbn_mul_sign\<close>), so \<open>-2 * 3\<close> is \<open>+6\<close>.
\<close>

theorem mul_ignores_sign:
  "gorbn_mul gorbn_local (gorbn_from_int gorbn_local (- 2)) (gorbn_from_int gorbn_local 3)
     = Inr (gorbn_from_int gorbn_local 6) \<and>
   sign (gorbn_from_int gorbn_local (- 2)) = - 1 \<and>
   sign (gorbn_from_int gorbn_local 3) = 1 \<and>
   sign (gorbn_from_int gorbn_local 6) = 1"
  by code_simp

text \<open>
  C8. The claim: with \<open>digits a + digits b \<le> GORBN_SZARR\<close> every index of \<^verbatim>\<open>gorbn_mul\<close> is
  inside the array. The carry of row \<open>i\<close> is stored at \<^verbatim>\<open>i + a_ndigits + 1\<close>, one word
  above the word that follows the partial product: an operand of 127 digits times an
  operand of 1 digit stores at index 128 of a 128-word array. By
  \<open>gorbn_mul_out_of_bounds_iff\<close> the same happens for every non-zero \<open>b\<close> with
  \<open>digits a + digits b = GORBN_SZARR\<close>.
\<close>

theorem mul_carry_store_out_of_bounds:
  "gorbn_get_ndigits \<lparr>sign = 1, number = (replicate GORBN_SZARR 0)[126 := 1]\<rparr> = 127 \<and>
   gorbn_get_ndigits (gorbn_from_uint gorbn_local 1) = 1 \<and>
   GORBN_SZARR = 128 \<and>
   gorbn_mul gorbn_local \<lparr>sign = 1, number = (replicate GORBN_SZARR 0)[126 := 1]\<rparr>
     (gorbn_from_uint gorbn_local 1) = Inl OutOfBounds"
  by code_simp

subsection \<open>The product of 123456 and 654321\<close>

text \<open>
  The number the claim expects is not \<^verbatim>\<open>gorbn_mul\<close>'s result either way:
  \<^verbatim>\<open>gorbn_from_uint\<close> takes a 32-bit argument, to which 80784793176 is reduced.
\<close>

lemma gorbn_mul_123456_654321_not_from_uint:
  "gorbn_mul gorbn_local (gorbn_from_uint gorbn_local 123456)
     (gorbn_from_uint gorbn_local 654321)
     \<noteq> Inr (gorbn_from_uint gorbn_local 80784793176)"
  by code_simp

text \<open>
  C2. The claim: the product of \<^verbatim>\<open>gorbn_from_uint(123456)\<close> and
  \<^verbatim>\<open>gorbn_from_uint(654321)\<close> is right in every word, the carry of each row stored in the
  word immediately above the partial product. The header documents \<^verbatim>\<open>r = a * b\<close>, and the
  code does not do it: the carry of row \<open>i\<close> is stored at \<^verbatim>\<open>i + a_ndigits + 1\<close>, one word
  too high, so the result has the words 48704, 52954, 17, 1 (the number 281551461596736)
  where the product \<open>123456 * 654321 = 80779853376\<close> has the words 48704, 52954, 18, 0.
\<close>

theorem gorbn_mul_123456_654321_misplaced_carry:
  "gorbn_mul gorbn_local (gorbn_from_uint gorbn_local 123456)
     (gorbn_from_uint gorbn_local 654321)
     = Inr \<lparr>sign = 1, number = [48704, 52954, 17, 1] @ replicate 124 0\<rparr> \<and>
   bn_mag ([48704, 52954, 17, 1] @ replicate 124 0) = 281551461596736 \<and>
   bn_mag ([48704, 52954, 18, 0] @ replicate 124 0) = 123456 * 654321 \<and>
   (123456 * 654321 :: nat) = 80779853376"
proof -
  have "gorbn_mul gorbn_local (gorbn_from_uint gorbn_local 123456)
     (gorbn_from_uint gorbn_local 654321)
     = Inr \<lparr>sign = 1, number = [48704, 52954, 17, 1] @ replicate 124 0\<rparr>"
    by code_simp
  moreover have "bn_mag ([48704, 52954, 17, 1] @ replicate 124 0) = 281551461596736"
    by (simp add: bn_mag_append)
  moreover have "bn_mag ([48704, 52954, 18, 0] @ replicate 124 0) = 123456 * 654321"
    by (simp add: bn_mag_append)
  moreover have "(123456 * 654321 :: nat) = 80779853376"
    by simp
  ultimately show ?thesis by blast
qed

section \<open>Division\<close>

text \<open>
  C7, as it holds. The claim: a divisor of zero magnitude is reported as a DivisionByZero
  fault. \<^verbatim>\<open>gorbn_div\<close> returns \<^verbatim>\<open>void\<close> and never reads its operands: with a zero
  divisor it returns to the caller with the destination as it was.
\<close>

theorem gorbn_div_zero_divisor_returns:
  "gorbn_is_zero b = 1 \<Longrightarrow> gorbn_div r a b = r"
  by (simp add: gorbn_div_def)

theorem gorbn_div_zero_divisor_returns_witness:
  "gorbn_is_zero (gorbn_from_uint gorbn_local 0) = 1 \<and>
   gorbn_div (gorbn_from_uint gorbn_local 3) (gorbn_from_uint gorbn_local 17)
     (gorbn_from_uint gorbn_local 0) = gorbn_from_uint gorbn_local 3"
proof -
  have z: "gorbn_is_zero (gorbn_from_uint gorbn_local 0) = 1" by code_simp
  from gorbn_div_zero_divisor_returns [OF z] z show ?thesis by simp
qed

text \<open>
  C7, as stated, fails: dividing 17 by zero into a destination that holds 7 returns
  normally, and the destination still holds 7.
\<close>

theorem gorbn_div_by_zero_silent:
  "gorbn_is_zero (gorbn_from_uint gorbn_local 0) = 1 \<and>
   gorbn_div (gorbn_from_uint gorbn_local 7) (gorbn_from_uint gorbn_local 17)
     (gorbn_from_uint gorbn_local 0) = gorbn_from_uint gorbn_local 7"
  by code_simp

section \<open>Import and export of bytes\<close>

lemma length_word_bytes: "length (word_bytes bo w) = 2"
  by (cases bo) (simp_all add: word_bytes_def)

lemma join_split_bytes:
  "ucast (ucast (w :: 16 word) :: 8 word) OR push_bit 8 (ucast (ucast (drop_bit 8 w) :: 8 word)) = w"
  by (rule bit_word_eqI) (auto simp add: bit_simps)

lemma low_byte_join:
  "(ucast (ucast (b0 :: 8 word) OR push_bit 8 (ucast (b1 :: 8 word)) :: 16 word) :: 8 word) = b0"
  by (rule bit_word_eqI) (auto simp add: bit_simps)

lemma high_byte_join:
  "(ucast (drop_bit 8 (ucast (b0 :: 8 word) :: 16 word) OR drop_bit 8 (push_bit 8 (ucast (b1 :: 8 word)))) :: 8 word) = b1"
  by (rule bit_word_eqI) (auto simp add: bit_simps dest: bit_imp_le_length)

lemma bytes_word_word_bytes: "bytes_word bo (word_bytes bo w) = w"
  by (cases bo) (simp_all add: word_bytes_def bytes_word_def join_split_bytes)

lemma word_bytes_bytes_word: "word_bytes bo (bytes_word bo [b0, b1]) = [b0, b1]"
  by (cases bo) (simp_all add: word_bytes_def bytes_word_def low_byte_join high_byte_join)

lemma bn_bytes_Nil [simp]: "bn_bytes bo [] = []"
  by (simp add: bn_bytes_def)

lemma bn_bytes_Cons: "bn_bytes bo (w # ws) = word_bytes bo w @ bn_bytes bo ws"
  by (simp add: bn_bytes_def)

lemma bn_bytes_append: "bn_bytes bo (xs @ ys) = bn_bytes bo xs @ bn_bytes bo ys"
  by (simp add: bn_bytes_def)

lemma length_bn_bytes: "length (bn_bytes bo ws) = 2 * length ws"
  by (induction ws) (simp_all add: bn_bytes_Cons length_word_bytes)

lemma word_bytes_zero: "word_bytes bo 0 = [0, 0]"
  by (cases bo) (simp_all add: word_bytes_def)

lemma bn_bytes_replicate_zero: "bn_bytes bo (replicate n 0) = replicate (2 * n) 0"
  by (induction n) (simp_all add: bn_bytes_Cons word_bytes_zero)

lemma word_bytes_two: "word_bytes bo w = [word_bytes bo w ! 0, word_bytes bo w ! 1]"
  by (cases bo) (simp_all add: word_bytes_def)

lemma take_bn_bytes: "take (2 * k) (bn_bytes bo ws) = bn_bytes bo (take k ws)"
proof (induction ws arbitrary: k)
  case Nil
  then show ?case by simp
next
  case (Cons w ws)
  then show ?case
    by (cases k) (simp_all add: bn_bytes_Cons length_word_bytes)
qed

lemma drop_bn_bytes: "drop (2 * k) (bn_bytes bo ws) = bn_bytes bo (drop k ws)"
proof (induction ws arbitrary: k)
  case Nil
  then show ?case by simp
next
  case (Cons w ws)
  then show ?case
    by (cases k) (simp_all add: bn_bytes_Cons length_word_bytes)
qed

lemma bn_bytes_take_Suc:
  "k < length ws \<Longrightarrow>
     take (2 * Suc k) (bn_bytes bo ws)
       = take (2 * k) (bn_bytes bo ws) @ [word_bytes bo (ws ! k) ! 0, word_bytes bo (ws ! k) ! 1]"
  using word_bytes_two [of bo "ws ! k"]
  by (simp only: take_bn_bytes take_Suc_conv_app_nth bn_bytes_append bn_bytes_Cons bn_bytes_Nil append_Nil2)

lemma bn_bytes_list_update:
  "k < length ws \<Longrightarrow>
     bn_bytes bo (ws[k := w])
       = take (2 * k) (bn_bytes bo ws) @ word_bytes bo w @ drop (2 * Suc k) (bn_bytes bo ws)"
  by (simp only: take_bn_bytes drop_bn_bytes upd_conv_take_nth_drop bn_bytes_append bn_bytes_Cons)

lemma nth_bn_bytes:
  "j < 2 * length ws \<Longrightarrow> bn_bytes bo ws ! j = word_bytes bo (ws ! (j div 2)) ! (j mod 2)"
proof (induction ws arbitrary: j)
  case Nil
  then show ?case by simp
next
  case (Cons w ws)
  show ?case
  proof (cases "j < 2")
    case True
    then have "j = 0 \<or> j = 1" by auto
    then show ?thesis
      by (auto simp add: bn_bytes_Cons nth_append length_word_bytes)
  next
    case False
    then obtain i where j: "j = i + 2" by (metis add.commute le_Suc_ex not_less)
    with Cons.prems have "i < 2 * length ws" by simp
    from Cons.IH [OF this] show ?thesis
      by (simp add: j bn_bytes_Cons nth_append length_word_bytes)
  qed
qed

lemma two_elems: "length xs = 2 \<Longrightarrow> xs = [xs ! 0, xs ! 1]"
  by (auto simp add: numeral_2_eq_2 length_Suc_conv)

lemma update_in_pair:
  assumes "2 * i + 2 \<le> length xs" and "m < 2"
  shows "take (2 * i) xs @ [xs ! (2 * i), xs ! (2 * i + 1)][m := v] @ drop (2 * i + 2) xs
           = xs[2 * i + m := v]"
proof -
  from assms(2) consider "m = 0" | "m = 1" by linarith
  then show ?thesis
  proof cases
    case 1
    have "xs[2 * i := v] = take (2 * i) xs @ v # drop (Suc (2 * i)) xs"
      using assms(1) by (simp add: upd_conv_take_nth_drop)
    also have "drop (Suc (2 * i)) xs = xs ! (2 * i + 1) # drop (2 * i + 2) xs"
      using assms(1) by (simp add: Cons_nth_drop_Suc)
    finally show ?thesis using 1 by simp
  next
    case 2
    have "xs[2 * i + 1 := v] = take (2 * i + 1) xs @ v # drop (2 * i + 2) xs"
      using assms(1) by (simp add: upd_conv_take_nth_drop)
    also have "take (2 * i + 1) xs = take (2 * i) xs @ [xs ! (2 * i)]"
      using assms(1) by (simp add: take_Suc_conv_app_nth)
    finally show ?thesis using 2 by simp
  qed
qed

text \<open>A byte stored through the byte pointer changes that byte of the image and no other.\<close>

lemma bn_bytes_store_byte:
  assumes "k < 2 * length ws"
  shows "bn_bytes bo (store_byte bo ws k v) = (bn_bytes bo ws)[k := v]"
proof -
  let ?i = "k div 2"
  let ?old = "word_bytes bo (ws ! ?i)"
  let ?bs = "bn_bytes bo ws"
  have i: "?i < length ws" using assms by simp
  have old: "?old = [?bs ! (2 * ?i), ?bs ! (2 * ?i + 1)]"
    using i word_bytes_two [of bo "ws ! ?i"] by (simp add: nth_bn_bytes)
  have "length (?old[k mod 2 := v]) = 2" by (simp add: length_word_bytes)
  then have "?old[k mod 2 := v] = [(?old[k mod 2 := v]) ! 0, (?old[k mod 2 := v]) ! 1]"
    by (rule two_elems)
  then have wb: "word_bytes bo (bytes_word bo (?old[k mod 2 := v])) = ?old[k mod 2 := v]"
    by (metis word_bytes_bytes_word)
  have "bn_bytes bo (store_byte bo ws k v)
          = take (2 * ?i) ?bs @ ?old[k mod 2 := v] @ drop (2 * ?i + 2) ?bs"
    using i by (simp add: store_byte_def GORBN_SZWORD_def bn_bytes_list_update wb)
  also have "\<dots> = take (2 * ?i) ?bs @ [?bs ! (2 * ?i), ?bs ! (2 * ?i + 1)][k mod 2 := v]
                     @ drop (2 * ?i + 2) ?bs"
    using old by simp
  also have "\<dots> = ?bs[2 * ?i + k mod 2 := v]"
    using i by (intro update_in_pair) (simp_all add: length_bn_bytes)
  also have "2 * ?i + k mod 2 = k" by simp
  finally show ?thesis .
qed

lemma length_store_byte: "length (store_byte bo ws k v) = length ws"
  by (simp add: store_byte_def)

lemma for_each_append:
  "for_each (xs @ ys) body s =
     (case for_each xs body s of Inl e \<Rightarrow> Inl e | Inr s' \<Rightarrow> for_each ys body s')"
  by (induction xs arbitrary: s) (simp_all split: sum.splits)

lemma from_data_loop:
  assumes "n \<le> length data" and "n \<le> 2 * length ws" and "length ws = GORBN_SZARR"
  shows "\<exists>ws'. for_each [0..<n] (from_data_step bo data) ws = Inr ws' \<and>
           length ws' = length ws \<and>
           bn_bytes bo ws' = take n data @ drop n (bn_bytes bo ws)"
  using assms(1,2)
proof (induction n)
  case 0
  then show ?case by simp
next
  case (Suc n)
  then obtain ws' where run: "for_each [0..<n] (from_data_step bo data) ws = Inr ws'"
    and len: "length ws' = length ws"
    and img: "bn_bytes bo ws' = take n data @ drop n (bn_bytes bo ws)"
    by auto
  have n: "n < length data" "n < 2 * length ws" using Suc.prems by simp_all
  have step: "from_data_step bo data n ws' = Inr (store_byte bo ws' n (data ! n))"
    using n assms(3) by (simp add: from_data_step_def GORBN_SZWORD_def)
  have "bn_bytes bo (store_byte bo ws' n (data ! n)) = (bn_bytes bo ws')[n := data ! n]"
    using n len by (simp add: bn_bytes_store_byte)
  also have "\<dots> = take n data @ (drop n (bn_bytes bo ws))[0 := data ! n]"
    using n by (simp add: img list_update_append)
  also have "\<dots> = take n data @ data ! n # drop (Suc n) (bn_bytes bo ws)"
    using n by (simp add: length_bn_bytes upd_conv_take_nth_drop flip: drop_Suc Cons_nth_drop_Suc)
  also have "\<dots> = take (Suc n) data @ drop (Suc n) (bn_bytes bo ws)"
    using n by (simp add: take_Suc_conv_app_nth)
  finally show ?case
    using run step len by (simp add: for_each_append length_store_byte)
qed

lemma update_first_two:
  "2 \<le> length ys \<Longrightarrow> ys[0 := a, 1 := b] = a # b # drop 2 ys"
  by (cases ys; cases "tl ys") auto

lemma to_data_loop:
  assumes "k \<le> length (number n)" and "2 * k \<le> length d"
  shows "for_each [0..<k] (to_data_step bo n) d
           = Inr (take (2 * k) (bn_bytes bo (number n)) @ drop (2 * k) d)"
  using assms
proof (induction k)
  case 0
  then show ?case by simp
next
  case (Suc k)
  let ?B = "bn_bytes bo (number n)"
  let ?d' = "take (2 * k) ?B @ drop (2 * k) d"
  let ?b0 = "word_bytes bo (number n ! k) ! 0" and ?b1 = "word_bytes bo (number n ! k) ! 1"
  have run: "for_each [0..<k] (to_data_step bo n) d = Inr ?d'"
    using Suc by simp
  have lB: "length (take (2 * k) ?B) = 2 * k"
    using Suc.prems by (simp add: length_bn_bytes)
  have ld: "length ?d' = length d"
    using Suc.prems lB by simp
  have two: "2 \<le> length (drop (2 * k) d)"
    using Suc.prems by simp
  have ts: "take (2 * Suc k) ?B = take (2 * k) ?B @ [?b0, ?b1]"
    using Suc.prems by (intro bn_bytes_take_Suc) simp
  have step: "to_data_step bo n k ?d' = Inr (?d'[2 * k := ?b0, 2 * k + 1 := ?b1])"
    using Suc.prems unfolding to_data_step_def GORBN_SZWORD_def ld by simp
  have "?d'[2 * k := ?b0, 2 * k + 1 := ?b1]
          = take (2 * k) ?B @ (drop (2 * k) d)[0 := ?b0, 1 := ?b1]"
    using lB by (simp add: list_update_append)
  also have "\<dots> = take (2 * k) ?B @ ?b0 # ?b1 # drop 2 (drop (2 * k) d)"
    using two by (simp only: update_first_two)
  also have "\<dots> = take (2 * Suc k) ?B @ drop (2 * Suc k) d"
    unfolding ts by simp
  finally have "?d'[2 * k := ?b0, 2 * k + 1 := ?b1] = take (2 * Suc k) ?B @ drop (2 * Suc k) d" .
  with run step show ?case
    by (simp add: for_each_append)
qed

text \<open>
  C10. For a buffer \<open>buf\<close> of at most \<open>GORBN_SZARR * GORBN_SZWORD\<close> bytes,
  \<^verbatim>\<open>gorbn_from_data\<close> of \<open>buf\<close> and its length succeeds, and \<^verbatim>\<open>gorbn_to_data\<close> of the
  result into a buffer \<open>d\<close> of at least that capacity writes exactly the first
  \<open>GORBN_SZARR * GORBN_SZWORD\<close> bytes of \<open>d\<close>: the bytes of \<open>buf\<close>, then zeros. This holds
  for either byte order of the host and every initial content of the number and of \<open>d\<close>.
\<close>

theorem from_data_to_data_roundtrip:
  assumes "wf_bignum n"
    and "length buf \<le> GORBN_SZARR * GORBN_SZWORD"
    and "GORBN_SZARR * GORBN_SZWORD \<le> length d"
  shows "\<exists>x. gorbn_from_data bo n buf (length buf) = Inr x \<and>
             gorbn_to_data bo d (length d) x
               = Inr (buf @ replicate (GORBN_SZARR * GORBN_SZWORD - length buf) 0
                          @ drop (GORBN_SZARR * GORBN_SZWORD) d)"
proof -
  let ?z = "number (gorbn_init n)"
  have z: "?z = replicate GORBN_SZARR 0"
    using assms(1) by (rule number_gorbn_init)
  have "\<exists>ws'. for_each [0..<length buf] (from_data_step bo buf) ?z = Inr ws' \<and>
           length ws' = length ?z \<and>
           bn_bytes bo ws' = take (length buf) buf @ drop (length buf) (bn_bytes bo ?z)"
    using assms(2) by (intro from_data_loop) (simp_all add: z GORBN_SZWORD_def)
  then obtain ws' where run: "for_each [0..<length buf] (from_data_step bo buf) ?z = Inr ws'"
    and len: "length ws' = GORBN_SZARR"
    and img: "bn_bytes bo ws' = buf @ replicate (GORBN_SZARR * GORBN_SZWORD - length buf) 0"
    by (auto simp add: z bn_bytes_replicate_zero GORBN_SZWORD_def mult.commute)
  let ?x = "(gorbn_init n)\<lparr>number := ws'\<rparr>"
  have imp: "gorbn_from_data bo n buf (length buf) = Inr ?x"
    using run by (simp add: gorbn_from_data_def Let_def)
  have "gorbn_to_data bo d (length d) ?x
          = Inr (take (2 * GORBN_SZARR) (bn_bytes bo ws') @ drop (2 * GORBN_SZARR) d)"
    unfolding gorbn_to_data_def
    using to_data_loop [of GORBN_SZARR ?x d bo] len assms(3)
    by (simp add: GORBN_SZWORD_def mult.commute)
  also have "take (2 * GORBN_SZARR) (bn_bytes bo ws') = bn_bytes bo ws'"
    using len by (simp add: length_bn_bytes)
  finally have "gorbn_to_data bo d (length d) ?x
          = Inr (buf @ replicate (GORBN_SZARR * GORBN_SZWORD - length buf) 0
                          @ drop (GORBN_SZARR * GORBN_SZWORD) d)"
    by (simp add: img GORBN_SZWORD_def mult.commute)
  with imp show ?thesis by blast
qed

text \<open>The hypotheses hold for a buffer of three bytes and a destination of 257 bytes.\<close>

theorem from_data_to_data_roundtrip_witness:
  "\<exists>x. gorbn_from_data BigEndian gorbn_local [1, 2, 3] 3 = Inr x \<and>
       gorbn_to_data BigEndian (replicate 257 0xFF) 257 x
         = Inr ([1, 2, 3] @ replicate 253 0 @ [0xFF])"
proof -
  have sz: "GORBN_SZARR * GORBN_SZWORD = 256"
    by (simp add: GORBN_SZARR_def GORBN_SZWORD_def)
  have h2: "length [1, 2, 3 :: byte] \<le> GORBN_SZARR * GORBN_SZWORD"
    by (simp add: sz)
  have h3: "GORBN_SZARR * GORBN_SZWORD \<le> length (replicate 257 (0xFF :: byte))"
    by (simp add: sz)
  have d: "drop 256 (replicate 257 (0xFF :: byte)) = [0xFF]"
    by simp
  have l: "length [1, 2, 3 :: byte] = 3"
    by simp
  from from_data_to_data_roundtrip [OF wf_bignum_local h2 h3, of BigEndian]
  show ?thesis
    unfolding sz d l by simp
qed

end
